theory Spec2Isabelle
  imports Main
begin

section \<open>Python strings\<close>

text \<open>
  A Python \<^verbatim>\<open>str\<close> is a \<^typ>\<open>string\<close>, one \<^typ>\<open>char\<close> per code point, so
  \<^const>\<open>length\<close> is Python's \<^verbatim>\<open>len\<close>. The model covers the code points below 256
  (ASCII and Latin-1); the tables of \<^verbatim>\<open>str.lower\<close>, \<^verbatim>\<open>str.strip\<close> and of the
  regular expression class \<^verbatim>\<open>\w\<close> are written out for them.
\<close>

definition is_ascii_letter :: "char \<Rightarrow> bool" where
  \<comment> \<open>the class \<^verbatim>\<open>[a-zA-Z]\<close>\<close>
  "is_ascii_letter c =
     (let n = (of_char c :: nat) in (65 \<le> n \<and> n \<le> 90) \<or> (97 \<le> n \<and> n \<le> 122))"

definition is_word_char :: "char \<Rightarrow> bool" where
  \<comment> \<open>the class \<^verbatim>\<open>\w\<close> of a str pattern: alphanumeric or underscore\<close>
  "is_word_char c =
     (let n = (of_char c :: nat) in
        (48 \<le> n \<and> n \<le> 57) \<or> (65 \<le> n \<and> n \<le> 90) \<or> n = 95 \<or> (97 \<le> n \<and> n \<le> 122)
        \<or> n = 170 \<or> n = 178 \<or> n = 179 \<or> n = 181 \<or> n = 185 \<or> n = 186
        \<or> (188 \<le> n \<and> n \<le> 190) \<or> (192 \<le> n \<and> n \<le> 214)
        \<or> (216 \<le> n \<and> n \<le> 246) \<or> 248 \<le> n)"

definition is_space_char :: "char \<Rightarrow> bool" where
  \<comment> \<open>the characters \<^verbatim>\<open>str.strip()\<close> removes\<close>
  "is_space_char c =
     (let n = (of_char c :: nat) in
        (9 \<le> n \<and> n \<le> 13) \<or> (28 \<le> n \<and> n \<le> 32) \<or> n = 133 \<or> n = 160)"

definition lower_char :: "char \<Rightarrow> char" where
  "lower_char c =
     (let n = (of_char c :: nat) in
        if (65 \<le> n \<and> n \<le> 90) \<or> (192 \<le> n \<and> n \<le> 214) \<or> (216 \<le> n \<and> n \<le> 222)
        then char_of (n + 32) else c)"

definition py_lower :: "string \<Rightarrow> string" where
  "py_lower s = map lower_char s"

definition py_strip :: "string \<Rightarrow> string" where
  "py_strip s = rev (dropWhile is_space_char (rev (dropWhile is_space_char s)))"

definition py_replace :: "char \<Rightarrow> char \<Rightarrow> string \<Rightarrow> string" where
  \<comment> \<open>\<^verbatim>\<open>s.replace(old, new)\<close> for one-character \<^verbatim>\<open>old\<close> and \<^verbatim>\<open>new\<close>\<close>
  "py_replace old new s = map (\<lambda>c. if c = old then new else c) s"

definition py_repeat :: "string \<Rightarrow> nat \<Rightarrow> string" where
  \<comment> \<open>\<^verbatim>\<open>s * n\<close>\<close>
  "py_repeat s n = concat (replicate n s)"

section \<open>The regular expression \<^verbatim>\<open>\b\w+\b\<close>\<close>

text \<open>
  A match of \<^verbatim>\<open>\b\w+\b\<close> is a maximal run of word characters: the run is taken
  greedily and a word boundary lies only at its two ends. \<^verbatim>\<open>re.findall\<close> lists the
  matches from left to right; \<^verbatim>\<open>re.sub\<close> calls its function on each match, in the
  same order, and copies everything between the matches. The function given to
  \<^verbatim>\<open>re.sub\<close> may update a variable of the enclosing scope, so it takes and returns
  a state.
\<close>

function re_findall_words :: "string \<Rightarrow> string list" where
  "re_findall_words [] = []"
| "re_findall_words (c # cs) =
     (if is_word_char c
      then (c # takeWhile is_word_char cs) # re_findall_words (dropWhile is_word_char cs)
      else re_findall_words cs)"
  by pat_completeness auto
termination
  by (relation "measure length") (auto simp: length_dropWhile_le less_Suc_eq_le)

function re_sub_words ::
  "(string \<Rightarrow> 's \<Rightarrow> string \<times> 's) \<Rightarrow> string \<Rightarrow> 's \<Rightarrow> string \<times> 's" where
  "re_sub_words f [] s = ([], s)"
| "re_sub_words f (c # cs) s =
     (if is_word_char c
      then (let (r, s1) = f (c # takeWhile is_word_char cs) s;
                (out, s2) = re_sub_words f (dropWhile is_word_char cs) s1
            in (r @ out, s2))
      else (let (out, s1) = re_sub_words f cs s in (c # out, s1)))"
  by pat_completeness auto
termination
  by (relation "measure (\<lambda>(f, m, s). length m)") (auto simp: length_dropWhile_le less_Suc_eq_le)

section \<open>The filter engine\<close>

datatype FilterLevel = STRICT | MODERATE | LENIENT

fun level_value :: "FilterLevel \<Rightarrow> string" where
  "level_value STRICT = ''strict''"
| "level_value MODERATE = ''moderate''"
| "level_value LENIENT = ''lenient''"

datatype py_error = FileNotFoundError | ValueError | Exception

record engine =
  filter_level :: FilterLevel
  curse_words :: "string set"
  replacement_char :: string
  max_message_length :: int
  min_message_length :: int
  total_messages_processed :: int
  total_words_filtered :: int

subsection \<open>Loading the word list\<close>

text \<open>
  A parsed JSON document. The loader asks two things of an entry of a word list: whether
  it is truthy and what \<^verbatim>\<open>str()\<close> gives for it. A number is therefore given by
  these two; the text of a nested list or dictionary is a parameter \<open>txt\<close> of the loader.
  A dictionary is the list of its items, in order, with distinct keys.
\<close>

datatype json =
    JNull
  | JBool bool
  | JNum bool string
  | JStr string
  | JList "json list"
  | JDict "(string \<times> json) list"

fun truthy :: "json \<Rightarrow> bool" where
  "truthy JNull = False"
| "truthy (JBool b) = b"
| "truthy (JNum nonzero t) = nonzero"
| "truthy (JStr s) = (s \<noteq> [])"
| "truthy (JList xs) = (xs \<noteq> [])"
| "truthy (JDict d) = (d \<noteq> [])"

fun py_str :: "(json \<Rightarrow> string) \<Rightarrow> json \<Rightarrow> string" where
  "py_str txt JNull = ''None''"
| "py_str txt (JBool b) = (if b then ''True'' else ''False'')"
| "py_str txt (JNum nonzero t) = t"
| "py_str txt (JStr s) = s"
| "py_str txt v = txt v"

text \<open>What opening and parsing the file gives.\<close>

datatype source =
    FileMissing
  | FileUnreadable
  | NotJson
  | Parsed json

definition word_set :: "(json \<Rightarrow> string) \<Rightarrow> json list \<Rightarrow> string set" where
  \<comment> \<open>\<^verbatim>\<open>set(str(word).lower().strip() for word in data if word)\<close>\<close>
  "word_set txt ws = set (map (\<lambda>w. py_strip (py_lower (py_str txt w))) (filter truthy ws))"

definition key_set :: "(string \<times> json) list \<Rightarrow> string set" where
  \<comment> \<open>\<^verbatim>\<open>set(str(key).lower().strip() for key in data.keys() if key)\<close>\<close>
  "key_set d = set (map (\<lambda>k. py_strip (py_lower k)) (filter (\<lambda>k. k \<noteq> []) (map fst d)))"

definition common_keys :: "string list" where
  "common_keys = [''words'', ''curse'', ''curse_words'', ''bad_words'', ''profanity'']"

fun first_list_key :: "(string \<times> json) list \<Rightarrow> string list \<Rightarrow> json list option" where
  "first_list_key d [] = None"
| "first_list_key d (k # ks) =
     (case map_of d k of Some (JList ws) \<Rightarrow> Some ws | _ \<Rightarrow> first_list_key d ks)"

definition check_loaded :: "engine \<Rightarrow> engine \<times> (py_error + unit)" where
  \<comment> \<open>the test on the length of the set, after the set has been stored\<close>
  "check_loaded e = (if curse_words e = {} then (e, Inl Exception) else (e, Inr ()))"

fun load_curse_words ::
  "(json \<Rightarrow> string) \<Rightarrow> engine \<Rightarrow> source \<Rightarrow> engine \<times> (py_error + unit)" where
  "load_curse_words txt e FileMissing = (e, Inl FileNotFoundError)"
| "load_curse_words txt e FileUnreadable = (e, Inl Exception)"
| "load_curse_words txt e NotJson = (e, Inl ValueError)"
| "load_curse_words txt e (Parsed (JList ws)) =
     check_loaded (e\<lparr>curse_words := word_set txt ws\<rparr>)"
| "load_curse_words txt e (Parsed (JDict d)) =
     check_loaded (e\<lparr>curse_words :=
        (case first_list_key d common_keys of
           Some ws \<Rightarrow> word_set txt ws
         | None \<Rightarrow> key_set d)\<rparr>)"
| "load_curse_words txt e (Parsed v) = (e, Inl Exception)"

definition fresh :: "FilterLevel \<Rightarrow> engine" where
  \<comment> \<open>the fields as the constructor sets them before it loads the file\<close>
  "fresh lvl =
     \<lparr>filter_level = lvl, curse_words = {}, replacement_char = ''*'',
      max_message_length = 1000, min_message_length = 1,
      total_messages_processed = 0, total_words_filtered = 0\<rparr>"

definition init :: "(json \<Rightarrow> string) \<Rightarrow> source \<Rightarrow> FilterLevel \<Rightarrow> engine" where
  \<comment> \<open>the constructor: a failure of the loader is logged and dropped\<close>
  "init txt src lvl = fst (load_curse_words txt (fresh lvl) src)"

subsection \<open>Changing the word list and the settings\<close>

text \<open>
  An argument that Python would accept with any type is an option: \<open>None\<close> stands for
  every value that is not a \<^verbatim>\<open>str\<close> (for \<open>set_filter_level\<close>, not a
  \<^verbatim>\<open>FilterLevel\<close>). Every operation returns the engine as the call leaves it,
  also when it raises, and the value or the error.
\<close>

definition add_curse_word :: "engine \<Rightarrow> string option \<Rightarrow> engine \<times> (py_error + bool)" where
  "add_curse_word e word =
     (case word of
        None \<Rightarrow> (e, Inl ValueError)
      | Some w \<Rightarrow>
          if w = [] then (e, Inl ValueError)
          else (let word_lower = py_strip (py_lower w) in
                if word_lower \<in> curse_words e then (e, Inr False)
                else (e\<lparr>curse_words := insert word_lower (curse_words e)\<rparr>, Inr True)))"

definition remove_curse_word :: "engine \<Rightarrow> string option \<Rightarrow> engine \<times> bool" where
  "remove_curse_word e word =
     (case word of
        None \<Rightarrow> (e, False)
      | Some w \<Rightarrow>
          if w = [] then (e, False)
          else (let word_lower = py_strip (py_lower w) in
                if word_lower \<in> curse_words e
                then (e\<lparr>curse_words := curse_words e - {word_lower}\<rparr>, True)
                else (e, False)))"

definition set_replacement_char :: "engine \<Rightarrow> string \<Rightarrow> engine \<times> (py_error + unit)" where
  "set_replacement_char e ch =
     (if length ch \<noteq> 1 then (e, Inl ValueError)
      else (e\<lparr>replacement_char := ch\<rparr>, Inr ()))"

definition set_filter_level ::
  "engine \<Rightarrow> FilterLevel option \<Rightarrow> engine \<times> (py_error + unit)" where
  "set_filter_level e level =
     (case level of
        None \<Rightarrow> (e, Inl ValueError)
      | Some l \<Rightarrow> (e\<lparr>filter_level := l\<rparr>, Inr ()))"

definition reset_statistics :: "engine \<Rightarrow> engine" where
  "reset_statistics e = e\<lparr>total_messages_processed := 0, total_words_filtered := 0\<rparr>"

subsection \<open>Deciding on a word\<close>

definition normalize_word :: "string \<Rightarrow> string" where
  \<comment> \<open>\<^verbatim>\<open>re.sub(r'[^a-zA-Z]', '', word.lower())\<close>\<close>
  "normalize_word word = filter is_ascii_letter (py_lower word)"

definition substitutions :: "(char \<times> char) list" where
  "substitutions =
     [(CHR ''y'', CHR ''u''), (CHR ''1'', CHR ''i''), (CHR ''3'', CHR ''e''),
      (CHR ''4'', CHR ''a''), (CHR ''5'', CHR ''s''), (CHR ''7'', CHR ''t''),
      (CHR ''@'', CHR ''a''), (CHR ''$'', CHR ''s''), (CHR ''!'', CHR ''i'')]"

definition variation_form :: "string \<Rightarrow> string" where
  \<comment> \<open>the string \<open>_detect_variations\<close> looks up: the table is applied entry by entry
      to the lowercased word, then the result is normalized\<close>
  "variation_form word =
     normalize_word (fold (\<lambda>(digit, letter) normalized. py_replace digit letter normalized)
                          substitutions (py_lower word))"

definition detect_variations :: "engine \<Rightarrow> string \<Rightarrow> bool" where
  "detect_variations e word = (variation_form word \<in> curse_words e)"

definition should_filter_word :: "engine \<Rightarrow> string \<Rightarrow> bool" where
  "should_filter_word e word =
     (if word = [] then False
      else (let word_clean = normalize_word word in
            if word_clean \<in> curse_words e then True
            else if filter_level e \<in> {STRICT, MODERATE} then detect_variations e word
            else False))"

subsection \<open>Detecting and filtering\<close>

definition detect_inappropriate_words :: "engine \<Rightarrow> string option \<Rightarrow> string list" where
  "detect_inappropriate_words e message =
     (case message of
        None \<Rightarrow> []
      | Some m \<Rightarrow>
          if m = [] then []
          else filter (should_filter_word e) (re_findall_words m))"

definition replace_word :: "engine \<Rightarrow> bool \<Rightarrow> string \<Rightarrow> int \<Rightarrow> string \<times> int" where
  \<comment> \<open>the function given to \<^verbatim>\<open>re.sub\<close>; the state is \<open>filtered_count\<close>\<close>
  "replace_word e preserve_length word filtered_count =
     (if should_filter_word e word
      then (if preserve_length then py_repeat (replacement_char e) (length word)
            else py_repeat (replacement_char e) 3,
            filtered_count + 1)
      else (word, filtered_count))"

definition filter_message ::
  "engine \<Rightarrow> string option \<Rightarrow> bool \<Rightarrow> engine \<times> (py_error + string)" where
  "filter_message e message preserve_length =
     (case message of
        None \<Rightarrow> (e, Inl ValueError)
      | Some m \<Rightarrow>
          if m = [] then (e, Inl ValueError)
          else if int (length m) > max_message_length e then (e, Inl ValueError)
          else if int (length m) < min_message_length e then (e, Inl ValueError)
          else (let e1 = e\<lparr>total_messages_processed := total_messages_processed e + 1\<rparr>;
                    (filtered_message, filtered_count) =
                       re_sub_words (replace_word e1 preserve_length) m 0
                in (e1\<lparr>total_words_filtered := total_words_filtered e1 + filtered_count\<rparr>,
                    Inr filtered_message)))"

definition is_message_clean :: "engine \<Rightarrow> string option \<Rightarrow> bool" where
  "is_message_clean e message = (length (detect_inappropriate_words e message) = 0)"

record report =
  original_message :: string
  filtered_message :: string
  inappropriate_words :: "string list"
  total_words :: int
  filtered_words_count :: int
  is_clean :: bool
  level :: string
  message_length :: "int option"

definition get_filter_report ::
  "engine \<Rightarrow> string option \<Rightarrow> engine \<times> (py_error + report)" where
  "get_filter_report e message =
     (case message of
        None \<Rightarrow>
          (e, Inr \<lparr>original_message = [], filtered_message = [], inappropriate_words = [],
                   total_words = 0, filtered_words_count = 0, is_clean = True,
                   level = level_value (filter_level e), message_length = None\<rparr>)
      | Some m \<Rightarrow>
          if m = [] then
            (e, Inr \<lparr>original_message = [], filtered_message = [], inappropriate_words = [],
                     total_words = 0, filtered_words_count = 0, is_clean = True,
                     level = level_value (filter_level e), message_length = None\<rparr>)
          else (let found = detect_inappropriate_words e (Some m) in
                case filter_message e (Some m) True of
                  (e1, Inl err) \<Rightarrow> (e1, Inl err)
                | (e1, Inr filtered) \<Rightarrow>
                    (e1, Inr \<lparr>original_message = m, filtered_message = filtered,
                              inappropriate_words = found,
                              total_words = int (length (re_findall_words m)),
                              filtered_words_count = int (length found),
                              is_clean = (length found = 0),
                              level = level_value (filter_level e1),
                              message_length = Some (int (length m))\<rparr>)))"

fun batch_filter_messages ::
  "engine \<Rightarrow> string option list \<Rightarrow> engine \<times> (py_error + string list)" where
  "batch_filter_messages e [] = (e, Inr [])"
| "batch_filter_messages e (None # msgs) =
     (case batch_filter_messages e msgs of
        (e1, Inl err) \<Rightarrow> (e1, Inl err)
      | (e1, Inr out) \<Rightarrow> (e1, Inr ([] # out)))"
| "batch_filter_messages e (Some m # msgs) =
     (case filter_message e (Some m) True of
        (e1, Inl err) \<Rightarrow> (e1, Inl err)
      | (e1, Inr r) \<Rightarrow>
          (case batch_filter_messages e1 msgs of
             (e2, Inl err) \<Rightarrow> (e2, Inl err)
           | (e2, Inr out) \<Rightarrow> (e2, Inr (r # out))))"

subsection \<open>The engines a program can hold\<close>

inductive reachable :: "engine \<Rightarrow> bool" where
  r_init: "reachable (init txt src lvl)"
| r_add: "reachable e \<Longrightarrow> reachable (fst (add_curse_word e word))"
| r_remove: "reachable e \<Longrightarrow> reachable (fst (remove_curse_word e word))"
| r_char: "reachable e \<Longrightarrow> reachable (fst (set_replacement_char e ch))"
| r_level: "reachable e \<Longrightarrow> reachable (fst (set_filter_level e l))"
| r_reset: "reachable e \<Longrightarrow> reachable (reset_statistics e)"
| r_filter: "reachable e \<Longrightarrow> reachable (fst (filter_message e message pl))"
| r_report: "reachable e \<Longrightarrow> reachable (fst (get_filter_report e message))"
| r_batch: "reachable e \<Longrightarrow> reachable (fst (batch_filter_messages e msgs))"

section \<open>Notions the properties are stated with\<close>

text \<open>
  The text \<open>filter_message\<close> returns, without the counter: every maximal run of word
  characters goes through \<open>replace_word\<close>, the rest is copied.
\<close>

function censor :: "engine \<Rightarrow> bool \<Rightarrow> string \<Rightarrow> string" where
  "censor e pl [] = []"
| "censor e pl (c # cs) =
     (if is_word_char c
      then fst (replace_word e pl (c # takeWhile is_word_char cs) 0)
           @ censor e pl (dropWhile is_word_char cs)
      else c # censor e pl cs)"
  by pat_completeness auto
termination
  by (relation "measure (\<lambda>(e, pl, m). length m)") (auto simp: length_dropWhile_le less_Suc_eq_le)

text \<open>A sequence of calls of \<open>filter_message\<close>, all of which return.\<close>

fun filter_calls :: "engine \<Rightarrow> (string option \<times> bool) list \<Rightarrow> engine option" where
  "filter_calls e [] = Some e"
| "filter_calls e ((message, pl) # calls) =
     (case filter_message e message pl of
        (e1, Inl err) \<Rightarrow> None
      | (e1, Inr filtered) \<Rightarrow> filter_calls e1 calls)"

text \<open>The normalizer as the specification words it: strip the non-letters, then lowercase.\<close>

definition strip_then_lower :: "string \<Rightarrow> string" where
  "strip_then_lower word = py_lower (filter is_ascii_letter word)"

text \<open>A word as the specification wants it stored: non-empty, lowercase, letters only.\<close>

definition normalized_entry :: "string \<Rightarrow> bool" where
  "normalized_entry w = (w \<noteq> [] \<and> list_all is_ascii_letter w \<and> py_lower w = w)"

text \<open>A word as the engine stores it: lowercased and trimmed.\<close>

definition lowered_trimmed :: "string \<Rightarrow> bool" where
  "lowered_trimmed w = (py_lower w = w \<and> py_strip w = w)"

definition valid_message :: "engine \<Rightarrow> string \<Rightarrow> bool" where
  "valid_message e m =
     (m \<noteq> [] \<and> int (length m) \<le> max_message_length e \<and> min_message_length e \<le> int (length m))"

text \<open>An engine loaded from the list \<^verbatim>\<open>["suka", "blyat", "damn"]\<close>.\<close>

definition example_engine :: engine where
  "example_engine =
     init (\<lambda>v. []) (Parsed (JList [JStr ''suka'', JStr ''blyat'', JStr ''damn''])) MODERATE"

text \<open>An engine with the block list \<open>{aaa}\<close> and the letter \<open>a\<close> as replacement character.\<close>

definition letter_engine :: engine where
  "letter_engine =
     fst (set_replacement_char (init (\<lambda>v. []) (Parsed (JList [JStr ''aaa''])) MODERATE) ''a'')"

text \<open>An engine to which the word \<open>yomon_soz\<close> has been added.\<close>

definition underscore_engine :: engine where
  "underscore_engine =
     fst (add_curse_word (init (\<lambda>v. []) FileMissing MODERATE) (Some ''yomon_soz''))"

text \<open>An engine to which a word of one blank has been added.\<close>

definition blank_engine :: engine where
  "blank_engine = fst (add_curse_word (init (\<lambda>v. []) FileMissing MODERATE) (Some '' ''))"

text \<open>An engine at level LENIENT loaded from the list \<^verbatim>\<open>["damn", "dmn"]\<close>.\<close>

definition dmn_engine :: engine where
  "dmn_engine = init (\<lambda>v. []) (Parsed (JList [JStr ''damn'', JStr ''dmn''])) LENIENT"

section \<open>The filter as a pure function\<close>

lemma re_sub_words_replace:
  "re_sub_words (replace_word e pl) m n =
     (censor e pl m, n + int (length (filter (should_filter_word e) (re_findall_words m))))"
proof (induction m arbitrary: n rule: re_findall_words.induct)
  case 1
  show ?case by simp
next
  case (2 c cs)
  show ?case
  proof (cases "is_word_char c")
    case True
    with 2 show ?thesis by (simp add: replace_word_def split_def)
  next
    case False
    with 2 show ?thesis by (simp add: split_def)
  qed
qed

lemma should_filter_word_cong:
  "curse_words e' = curse_words e \<Longrightarrow> filter_level e' = filter_level e \<Longrightarrow>
   should_filter_word e' w = should_filter_word e w"
  by (simp add: should_filter_word_def detect_variations_def)

lemma replace_word_cong:
  "curse_words e' = curse_words e \<Longrightarrow> filter_level e' = filter_level e \<Longrightarrow>
   replacement_char e' = replacement_char e \<Longrightarrow>
   replace_word e' pl w n = replace_word e pl w n"
  using should_filter_word_cong [of e' e w] by (simp add: replace_word_def)

lemma censor_cong:
  assumes "curse_words e2 = curse_words e" "filter_level e2 = filter_level e"
    "replacement_char e2 = replacement_char e"
  shows "censor e2 pl m = censor e pl m"
proof (induction m rule: re_findall_words.induct)
  case 1
  show ?case by simp
next
  case (2 c cs)
  have r: "\<And>w. replace_word e2 pl w 0 = replace_word e pl w 0"
    by (rule replace_word_cong [OF assms])
  show ?case
  proof (cases "is_word_char c")
    case True
    with 2 have IH: "censor e2 pl (dropWhile is_word_char cs) = censor e pl (dropWhile is_word_char cs)"
      by blast
    have "censor e2 pl (c # cs) =
        fst (replace_word e2 pl (c # takeWhile is_word_char cs) 0) @ censor e2 pl (dropWhile is_word_char cs)"
      using True by simp
    also have "\<dots> = fst (replace_word e pl (c # takeWhile is_word_char cs) 0) @ censor e pl (dropWhile is_word_char cs)"
      by (simp only: r IH)
    also have "\<dots> = censor e pl (c # cs)"
      using True by simp
    finally show ?thesis .
  next
    case False
    with 2 have "censor e2 pl cs = censor e pl cs" by blast
    with False show ?thesis by simp
  qed
qed

lemma filter_message_valid:
  assumes "valid_message e m"
  shows "filter_message e (Some m) pl =
     (e\<lparr>total_messages_processed := total_messages_processed e + 1,
        total_words_filtered :=
          total_words_filtered e + int (length (detect_inappropriate_words e (Some m)))\<rparr>,
      Inr (censor e pl m))"
proof -
  let ?e1 = "e\<lparr>total_messages_processed := total_messages_processed e + 1\<rparr>"
  have c: "censor ?e1 pl m = censor e pl m"
    by (rule censor_cong) simp_all
  have s: "should_filter_word ?e1 = should_filter_word e"
    by (rule ext, rule should_filter_word_cong) simp_all
  from assms show ?thesis
    by (simp add: filter_message_def valid_message_def detect_inappropriate_words_def
        re_sub_words_replace c s)
qed

lemma filter_message_invalid:
  "\<not> valid_message e m \<Longrightarrow> filter_message e (Some m) pl = (e, Inl ValueError)"
  by (auto simp: filter_message_def valid_message_def)

lemma filter_message_None: "filter_message e None pl = (e, Inl ValueError)"
  by (simp add: filter_message_def)

lemma censor_clean:
  "\<forall>w \<in> set (re_findall_words m). \<not> should_filter_word e w \<Longrightarrow> censor e pl m = m"
proof (induction m rule: re_findall_words.induct)
  case 1
  show ?case by simp
next
  case (2 c cs)
  then show ?case by (simp add: replace_word_def)
qed

lemma length_censor:
  "length (replacement_char e) = 1 \<Longrightarrow> length (censor e True m) = length m"
proof (induction m rule: re_findall_words.induct)
  case 1
  show ?case by simp
next
  case (2 c cs)
  have "length (takeWhile is_word_char cs) + length (dropWhile is_word_char cs) = length cs"
    by (metis length_append takeWhile_dropWhile_id)
  with 2 show ?case
    by (auto simp: replace_word_def py_repeat_def length_concat sum_list_replicate)
qed

lemma censor_word_run:
  assumes "w \<noteq> []" "\<forall>c \<in> set w. is_word_char c" "xs = [] \<or> \<not> is_word_char (hd xs)"
  shows "censor e pl (w @ xs) = fst (replace_word e pl w 0) @ censor e pl xs"
proof -
  from assms(1) obtain c w' where w: "w = c # w'" by (cases w) auto
  with assms(2) have c: "is_word_char c" and w': "\<forall>c \<in> set w'. is_word_char c" by auto
  from w' assms(3) have t: "takeWhile is_word_char (w' @ xs) = w'"
    by (cases xs) (auto simp: takeWhile_append2)
  from w' assms(3) have d: "dropWhile is_word_char (w' @ xs) = xs"
    by (cases xs) (auto simp: dropWhile_append2)
  have "censor e pl ((c # w') @ xs) = fst (replace_word e pl (c # w') 0) @ censor e pl xs"
    using c by (simp add: t d)
  then show ?thesis unfolding w .
qed

lemma censor_sep_run:
  "\<forall>c \<in> set ys. \<not> is_word_char c \<Longrightarrow> censor e pl (ys @ xs) = ys @ censor e pl xs"
  by (induction ys) auto

lemma censor_head:
  "xs = [] \<or> \<not> is_word_char (hd xs) \<Longrightarrow>
   censor e pl xs = [] \<or> \<not> is_word_char (hd (censor e pl xs))"
  by (cases xs) auto

lemma rest_head: "dropWhile is_word_char cs = [] \<or> \<not> is_word_char (hd (dropWhile is_word_char cs))"
  by (metis hd_dropWhile)

lemma censor_idem:
  assumes len1: "length (replacement_char e) = 1"
  shows "censor e True (censor e True m) = censor e True m"
proof (induction m rule: re_findall_words.induct)
  case 1
  show ?case by simp
next
  case (2 c cs)
  from len1 obtain r where r: "replacement_char e = [r]"
    by (cases "replacement_char e") auto
  show ?case
  proof (cases "is_word_char c")
    case False
    with 2 show ?thesis by simp
  next
    case True
    let ?w = "c # takeWhile is_word_char cs"
    let ?rest = "dropWhile is_word_char cs"
    have IH: "censor e True (censor e True ?rest) = censor e True ?rest"
      using 2 True by simp
    have w: "?w \<noteq> []" "\<forall>c \<in> set ?w. is_word_char c"
      using True by (auto dest: set_takeWhileD)
    have hd: "censor e True ?rest = [] \<or> \<not> is_word_char (hd (censor e True ?rest))"
      by (rule censor_head [OF rest_head])
    have unf: "censor e True (c # cs) = fst (replace_word e True ?w 0) @ censor e True ?rest"
      using True by simp
    show ?thesis
    proof (cases "should_filter_word e ?w")
      case False
      then have "fst (replace_word e True ?w 0) = ?w" by (simp add: replace_word_def)
      with unf censor_word_run [OF w hd, of e True] IH show ?thesis by simp
    next
      case bad: True
      let ?stars = "replicate (length ?w) r"
      have st: "fst (replace_word e True ?w 0) = ?stars"
        using bad r by (simp add: replace_word_def py_repeat_def)
      show ?thesis
      proof (cases "is_word_char r")
        case True
        have s: "?stars \<noteq> []" "\<forall>c \<in> set ?stars. is_word_char c" using True by auto
        have "fst (replace_word e True ?stars 0) = ?stars"
          using r by (simp add: replace_word_def py_repeat_def)
        with unf st censor_word_run [OF s hd, of e True] IH show ?thesis by simp
      next
        case False
        then have "\<forall>c \<in> set ?stars. \<not> is_word_char c" by auto
        from censor_sep_run [OF this, of e True] unf st IH show ?thesis by simp
      qed
    qed
  qed
qed


lemma detect_cong:
  "curse_words e2 = curse_words e \<Longrightarrow> filter_level e2 = filter_level e \<Longrightarrow>
   detect_inappropriate_words e2 message = detect_inappropriate_words e message"
  using should_filter_word_cong [of e2 e]
  by (auto simp: detect_inappropriate_words_def split: option.splits intro: filter_cong)

lemma detect_clean_iff:
  "is_message_clean e (Some m) \<longleftrightarrow>
     (\<forall>w \<in> set (re_findall_words m). \<not> should_filter_word e w)"
  by (cases "m = []")
     (auto simp: is_message_clean_def detect_inappropriate_words_def filter_empty_conv)

lemma detect_empty_list:
  "curse_words e = {} \<Longrightarrow> detect_inappropriate_words e message = []"
  by (auto simp: detect_inappropriate_words_def should_filter_word_def detect_variations_def
      split: option.splits)

lemma filter_message_Inr:
  assumes "filter_message e message pl = (e1, Inr t)"
  shows "\<exists>m. message = Some m \<and> valid_message e m \<and> t = censor e pl m
    \<and> e1 = e\<lparr>total_messages_processed := total_messages_processed e + 1,
        total_words_filtered :=
          total_words_filtered e + int (length (detect_inappropriate_words e (Some m)))\<rparr>"
proof (cases message)
  case None
  with assms show ?thesis by (simp add: filter_message_None)
next
  case (Some m)
  show ?thesis
  proof (cases "valid_message e m")
    case True
    from assms True show ?thesis unfolding Some filter_message_valid [OF True] by auto
  next
    case False
    from assms show ?thesis unfolding Some filter_message_invalid [OF False] by simp
  qed
qed

section \<open>Loading\<close>

lemma load_fails_iff:
  "(\<exists>err. snd (load_curse_words txt e src) = Inl err) \<longleftrightarrow>
     (case src of
        Parsed (JList ws) \<Rightarrow> word_set txt ws = {}
      | Parsed (JDict d) \<Rightarrow>
          (case first_list_key d common_keys of
             Some ws \<Rightarrow> word_set txt ws = {} | None \<Rightarrow> key_set d = {})
      | _ \<Rightarrow> True)"
  by (cases "(txt, e, src)" rule: load_curse_words.cases)
     (auto simp: check_loaded_def split: option.splits)

lemma load_failure_words:
  "snd (load_curse_words txt e src) = Inl err \<Longrightarrow>
   curse_words (fst (load_curse_words txt e src)) = {} \<or>
   curse_words (fst (load_curse_words txt e src)) = curse_words e"
  by (cases "(txt, e, src)" rule: load_curse_words.cases)
     (auto simp: check_loaded_def split: option.splits if_splits)

section \<open>Evaluation of the scenarios\<close>

lemma detect_scenario:
  "detect_inappropriate_words
     \<lparr>filter_level = MODERATE, curse_words = {''suka'', ''blyat''}, replacement_char = ''*'',
      max_message_length = 1000, min_message_length = 1,
      total_messages_processed = 0, total_words_filtered = 0\<rparr>
     (Some ''Salom suka qalesan blyat'') = [''suka'', ''blyat'']"
  by code_simp

lemma censor_scenario:
  "censor
     \<lparr>filter_level = MODERATE, curse_words = {''suka'', ''blyat''}, replacement_char = ''*'',
      max_message_length = 1000, min_message_length = 1,
      total_messages_processed = 0, total_words_filtered = 0\<rparr>
     True ''Salom suka qalesan blyat'' = ''Salom **** qalesan *****''"
  by code_simp

section \<open>The substitution table\<close>

lemma fold_py_replace:
  "fold (\<lambda>(digit, letter) normalized. py_replace digit letter normalized) tbl s
   = map (fold (\<lambda>(digit, letter) c. if c = digit then letter else c) tbl) s"
  by (induction tbl arbitrary: s) (auto simp: py_replace_def)

lemma substitutions_char:
  "fold (\<lambda>(digit, letter) c. if c = digit then letter else c) substitutions
   = (\<lambda>c. case map_of substitutions c of Some letter \<Rightarrow> letter | None \<Rightarrow> c)"
  by (rule ext) (simp add: substitutions_def)

lemma variation_form_map:
  "variation_form w =
     normalize_word
       (map (\<lambda>c. case map_of substitutions c of Some letter \<Rightarrow> letter | None \<Rightarrow> c)
            (py_lower w))"
  by (simp add: variation_form_def fold_py_replace substitutions_char)

lemma d4mn_variation: "variation_form ''D4mn'' = ''damn''"
  by code_simp

lemma d4mn_normalized: "normalize_word ''D4mn'' = ''dmn''"
  by code_simp

lemma d4mn_words: "re_findall_words ''D4mn th1s 1s b4d'' = [''D4mn'', ''th1s'', ''1s'', ''b4d'']"
  by code_simp

section \<open>The counters\<close>

lemma filter_calls_counts:
  "filter_calls e calls = Some e' \<Longrightarrow>
   total_messages_processed e' = total_messages_processed e + int (length calls)
   \<and> total_words_filtered e' =
       total_words_filtered e
       + (\<Sum>c\<leftarrow>calls. int (length (detect_inappropriate_words e (fst c))))
   \<and> curse_words e' = curse_words e \<and> filter_level e' = filter_level e"
proof (induction calls arbitrary: e)
  case Nil
  then show ?case by simp
next
  case (Cons c calls)
  obtain message pl where c: "c = (message, pl)" by (cases c)
  obtain e1 r where f: "filter_message e message pl = (e1, r)" by (cases "filter_message e message pl")
  with Cons.prems c obtain t where r: "r = Inr t" and rest: "filter_calls e1 calls = Some e'"
    by (cases r) auto
  from filter_message_Inr [OF f [unfolded r]] obtain m where
    m: "message = Some m"
    and e1: "e1 = e\<lparr>total_messages_processed := total_messages_processed e + 1,
        total_words_filtered :=
          total_words_filtered e + int (length (detect_inappropriate_words e (Some m)))\<rparr>"
    by blast
  have same: "\<And>x. detect_inappropriate_words e1 x = detect_inappropriate_words e x"
    by (rule detect_cong) (simp_all add: e1)
  from Cons.IH [OF rest] show ?case
    by (simp add: same c m) (simp add: e1)
qed

lemma get_filter_report_valid:
  assumes "valid_message e m"
  shows "fst (get_filter_report e (Some m)) =
       e\<lparr>total_messages_processed := total_messages_processed e + 1,
         total_words_filtered :=
           total_words_filtered e + int (length (detect_inappropriate_words e (Some m)))\<rparr>
     \<and> (\<exists>r. snd (get_filter_report e (Some m)) = Inr r
           \<and> inappropriate_words r = detect_inappropriate_words e (Some m)
           \<and> filtered_words_count r = int (length (detect_inappropriate_words e (Some m)))
           \<and> filtered_message r = censor e True m)"
proof -
  from assms have "m \<noteq> []" by (simp add: valid_message_def)
  then show ?thesis
    by (simp add: get_filter_report_def filter_message_valid [OF assms] Let_def)
qed

section \<open>The tokens of a filtered message\<close>

lemma findall_word_run:
  assumes "w \<noteq> []" "\<forall>c \<in> set w. is_word_char c" "xs = [] \<or> \<not> is_word_char (hd xs)"
  shows "re_findall_words (w @ xs) = w # re_findall_words xs"
proof -
  from assms(1) obtain c w' where w: "w = c # w'" by (cases w) auto
  with assms(2) have c: "is_word_char c" and w': "\<forall>c \<in> set w'. is_word_char c" by auto
  from w' assms(3) have t: "takeWhile is_word_char (w' @ xs) = w'"
    by (cases xs) (auto simp: takeWhile_append2)
  from w' assms(3) have d: "dropWhile is_word_char (w' @ xs) = xs"
    by (cases xs) (auto simp: dropWhile_append2)
  have "re_findall_words ((c # w') @ xs) = (c # w') # re_findall_words xs"
    using c by (simp add: t d)
  then show ?thesis unfolding w .
qed

lemma findall_sep_run:
  "\<forall>c \<in> set ys. \<not> is_word_char c \<Longrightarrow> re_findall_words (ys @ xs) = re_findall_words xs"
  by (induction ys) auto

lemma set_py_repeat: "set (py_repeat s n) \<subseteq> set s"
  by (induction n) (auto simp: py_repeat_def)

lemma words_after_censor:
  assumes sep: "\<forall>c \<in> set (replacement_char e). \<not> is_word_char c"
  shows "re_findall_words (censor e pl m)
    = filter (\<lambda>w. \<not> should_filter_word e w) (re_findall_words m)"
proof (induction m rule: re_findall_words.induct)
  case 1
  show ?case by simp
next
  case (2 c cs)
  show ?case
  proof (cases "is_word_char c")
    case False
    with 2 show ?thesis by simp
  next
    case True
    let ?w = "c # takeWhile is_word_char cs"
    let ?rest = "dropWhile is_word_char cs"
    have IH: "re_findall_words (censor e pl ?rest)
        = filter (\<lambda>w. \<not> should_filter_word e w) (re_findall_words ?rest)"
      using 2 True by simp
    have w: "?w \<noteq> []" "\<forall>c \<in> set ?w. is_word_char c"
      using True by (auto dest: set_takeWhileD)
    have hd: "censor e pl ?rest = [] \<or> \<not> is_word_char (hd (censor e pl ?rest))"
      by (rule censor_head [OF rest_head])
    have unf: "censor e pl (c # cs) = fst (replace_word e pl ?w 0) @ censor e pl ?rest"
      using True by simp
    have ws: "re_findall_words (c # cs) = ?w # re_findall_words ?rest"
      using True by simp
    show ?thesis
    proof (cases "should_filter_word e ?w")
      case False
      then have "fst (replace_word e pl ?w 0) = ?w" by (simp add: replace_word_def)
      with unf have "re_findall_words (censor e pl (c # cs)) = ?w # re_findall_words (censor e pl ?rest)"
        using findall_word_run [OF w hd] by simp
      with False IH ws show ?thesis by simp
    next
      case bad: True
      have "set (fst (replace_word e pl ?w 0)) \<subseteq> set (replacement_char e)"
        using bad set_py_repeat by (simp add: replace_word_def)
      with sep have "\<forall>c \<in> set (fst (replace_word e pl ?w 0)). \<not> is_word_char c" by blast
      from findall_sep_run [OF this] unf
      have "re_findall_words (censor e pl (c # cs)) = re_findall_words (censor e pl ?rest)"
        by simp
      with bad IH ws show ?thesis by simp
    qed
  qed
qed

section \<open>Lowercasing and trimming\<close>

lemma of_char_bound: "(of_char c :: nat) < 256"
  by (metis of_char_mod_256 mod_less_divisor zero_less_numeral)

lemma lower_char_idem: "lower_char (lower_char c) = lower_char c"
  using of_char_bound [of c] by (auto simp: lower_char_def Let_def)

lemma is_ascii_letter_lower: "is_ascii_letter (lower_char c) = is_ascii_letter c"
  using of_char_bound [of c] by (auto simp: lower_char_def is_ascii_letter_def Let_def)

lemma normalize_word_reference: "normalize_word w = strip_then_lower w"
  by (simp add: normalize_word_def strip_then_lower_def py_lower_def filter_map comp_def
      is_ascii_letter_lower)

lemma set_py_strip: "set (py_strip s) \<subseteq> set s"
  by (auto simp: py_strip_def dest!: set_dropWhileD)

lemma py_lower_strip_lower: "py_lower (py_strip (py_lower s)) = py_strip (py_lower s)"
proof -
  have "\<forall>c \<in> set (py_strip (py_lower s)). lower_char c = c"
    using set_py_strip [of "py_lower s"] by (auto simp: py_lower_def lower_char_idem)
  then show ?thesis by (simp add: py_lower_def map_idI)
qed

lemma dropWhile_fixed: "xs = [] \<or> \<not> P (hd xs) \<Longrightarrow> dropWhile P xs = xs"
  by (cases xs) auto

lemma py_strip_idem: "py_strip (py_strip s) = py_strip s"
proof -
  let ?t = "dropWhile is_space_char s"
  let ?u = "dropWhile is_space_char (rev ?t)"
  have t: "?t = [] \<or> \<not> is_space_char (hd ?t)" by (metis hd_dropWhile)
  have front: "rev ?u = [] \<or> \<not> is_space_char (hd (rev ?u))"
  proof (cases "?u = []")
    case True
    then show ?thesis by simp
  next
    case False
    obtain p where p: "rev ?t = p @ ?u" by (metis takeWhile_dropWhile_id)
    then have "?t = rev ?u @ rev p" by (metis rev_append rev_rev_ident)
    with False have "hd ?t = hd (rev ?u)" by (metis hd_append2 rev_is_Nil_conv)
    moreover have "?t \<noteq> []"
    proof
      assume a: "?t = []"
      have "?u = dropWhile is_space_char (rev [])" by (simp only: a)
      also have "\<dots> = []" by simp
      finally show False using False by (simp only: not_True_eq_False)
    qed
    ultimately show ?thesis using t by auto
  qed
  have "py_strip (rev ?u) = rev (dropWhile is_space_char (rev (rev ?u)))"
    unfolding py_strip_def
    by (simp only: dropWhile_fixed [of "rev ?u" is_space_char, OF front])
  also have "\<dots> = rev ?u" by simp
  finally show ?thesis by (simp add: py_strip_def)
qed

lemma lowered_trimmed_stored: "lowered_trimmed (py_strip (py_lower s))"
  by (simp add: lowered_trimmed_def py_lower_strip_lower py_strip_idem)

section \<open>The block list under the operations\<close>

lemma curse_words_filter_message:
  "curse_words (fst (filter_message e message pl)) = curse_words e"
  by (simp add: filter_message_def Let_def split_def split: option.splits)

lemma curse_words_get_filter_report:
  "curse_words (fst (get_filter_report e message)) = curse_words e"
proof (cases message)
  case None
  then show ?thesis by (simp add: get_filter_report_def)
next
  case (Some m)
  obtain e1 r where f: "filter_message e (Some m) True = (e1, r)"
    by (cases "filter_message e (Some m) True")
  with curse_words_filter_message [of e "Some m" True] have "curse_words e1 = curse_words e"
    by simp
  with f Some show ?thesis
    by (cases r) (simp_all add: get_filter_report_def Let_def)
qed

lemma curse_words_batch:
  "curse_words (fst (batch_filter_messages e msgs)) = curse_words e"
proof (induction e msgs rule: batch_filter_messages.induct)
  case (1 e)
  show ?case by simp
next
  case (2 e msgs)
  then show ?case by (simp add: split_def split: sum.splits prod.splits)
next
  case (3 e m msgs)
  obtain e1 r where f: "filter_message e (Some m) True = (e1, r)"
    by (cases "filter_message e (Some m) True")
  with curse_words_filter_message [of e "Some m" True] have c1: "curse_words e1 = curse_words e"
    by simp
  show ?case
  proof (cases r)
    case (Inl err)
    with f c1 show ?thesis by simp
  next
    case (Inr t)
    with 3 f have "curse_words (fst (batch_filter_messages e1 msgs)) = curse_words e1"
      by simp
    with f Inr c1 show ?thesis by (simp add: split_def split: sum.splits prod.splits)
  qed
qed

lemma init_words:
  "w \<in> curse_words (init txt src lvl) \<Longrightarrow> \<exists>s. w = py_strip (py_lower s)"
  by (cases "(txt, fresh lvl, src)" rule: load_curse_words.cases)
     (auto simp: init_def fresh_def check_loaded_def word_set_def key_set_def
        split: option.splits if_splits)

lemma reachable_lowered_trimmed:
  "reachable e \<Longrightarrow> w \<in> curse_words e \<Longrightarrow> lowered_trimmed w"
proof (induction arbitrary: w rule: reachable.induct)
  case (r_init tx src lvl)
  then show ?case using init_words lowered_trimmed_stored by blast
next
  case (r_add e word)
  then show ?case
    by (auto simp: add_curse_word_def Let_def lowered_trimmed_stored
        split: option.splits if_splits)
next
  case (r_remove e word)
  then show ?case
    by (auto simp: remove_curse_word_def Let_def split: option.splits if_splits)
next
  case (r_char e ch)
  then show ?case by (auto simp: set_replacement_char_def split: if_splits)
next
  case (r_level e l)
  then show ?case by (auto simp: set_filter_level_def split: option.splits)
next
  case (r_reset e)
  then show ?case by (simp add: reset_statistics_def)
next
  case (r_filter e message pl)
  then show ?case by (simp add: curse_words_filter_message)
next
  case (r_report e message)
  then show ?case by (simp add: curse_words_get_filter_report)
next
  case (r_batch e msgs)
  then show ?case by (simp add: curse_words_batch)
qed

section \<open>The claims\<close>

text \<open>
  C1. With the block list \<open>{suka, blyat}\<close>, level MODERATE, the replacement character
  \<open>*\<close> and the default length bounds, \<open>detect_inappropriate_words\<close> on
  \<open>Salom suka qalesan blyat\<close> returns exactly \<open>[suka, blyat]\<close>, and
  \<open>filter_message\<close>, preserving the length, returns \<open>Salom **** qalesan *****\<close>.
\<close>

theorem scenario_suka_blyat:
  assumes "curse_words e = {''suka'', ''blyat''}" and "filter_level e = MODERATE"
    and "replacement_char e = ''*''"
    and "max_message_length e = 1000" and "min_message_length e = 1"
  shows "detect_inappropriate_words e (Some ''Salom suka qalesan blyat'') = [''suka'', ''blyat'']
    \<and> snd (filter_message e (Some ''Salom suka qalesan blyat'') True)
        = Inr ''Salom **** qalesan *****''"
proof -
  let ?E = "\<lparr>filter_level = MODERATE, curse_words = {''suka'', ''blyat''},
      replacement_char = ''*'', max_message_length = 1000, min_message_length = 1,
      total_messages_processed = 0, total_words_filtered = 0\<rparr>"
  have cw: "curse_words e = curse_words ?E" using assms(1) by simp
  have fl: "filter_level e = filter_level ?E" using assms(2) by simp
  have rc: "replacement_char e = replacement_char ?E" using assms(3) by simp
  have d: "detect_inappropriate_words e (Some ''Salom suka qalesan blyat'') = [''suka'', ''blyat'']"
    by (simp only: detect_cong [OF cw fl] detect_scenario)
  have c: "censor e True ''Salom suka qalesan blyat'' = ''Salom **** qalesan *****''"
    by (simp only: censor_cong [OF cw fl rc] censor_scenario)
  have v: "valid_message e ''Salom suka qalesan blyat''"
    using assms(4,5) by (simp add: valid_message_def)
  have "snd (filter_message e (Some ''Salom suka qalesan blyat'') True)
      = Inr (censor e True ''Salom suka qalesan blyat'')"
    by (simp add: filter_message_valid [OF v])
  with d c show ?thesis by (simp only:)
qed

theorem scenario_suka_blyat_witness:
  "detect_inappropriate_words
      (init (\<lambda>v. []) (Parsed (JList [JStr ''suka'', JStr ''blyat''])) MODERATE)
      (Some ''Salom suka qalesan blyat'') = [''suka'', ''blyat'']
    \<and> snd (filter_message
          (init (\<lambda>v. []) (Parsed (JList [JStr ''suka'', JStr ''blyat''])) MODERATE)
          (Some ''Salom suka qalesan blyat'') True)
        = Inr ''Salom **** qalesan *****''"
proof -
  let ?e = "init (\<lambda>v. []) (Parsed (JList [JStr ''suka'', JStr ''blyat''])) MODERATE"
  have 1: "curse_words ?e = {''suka'', ''blyat''}" by code_simp
  have 2: "filter_level ?e = MODERATE" by code_simp
  have 3: "replacement_char ?e = ''*''" by code_simp
  have 4: "max_message_length ?e = 1000" by code_simp
  have 5: "min_message_length ?e = 1" by code_simp
  show ?thesis by (rule scenario_suka_blyat [OF 1 2 3 4 5])
qed

text \<open>
  C3. When the loader fails, the constructed engine has an empty block list: the loader
  fails exactly when the file is missing or unreadable, is not JSON, holds neither a list
  nor a dictionary, or gives an empty set of words. An engine with an empty block list
  detects nothing in any message and reports every message as clean.
\<close>

theorem failed_load_empty:
  "(snd (load_curse_words txt (fresh lvl) src) = Inl err \<longrightarrow> curse_words (init txt src lvl) = {})
   \<and> ((\<exists>err. snd (load_curse_words txt (fresh lvl) src) = Inl err) \<longleftrightarrow>
        (case src of
           Parsed (JList ws) \<Rightarrow> word_set txt ws = {}
         | Parsed (JDict d) \<Rightarrow>
             (case first_list_key d common_keys of
                Some ws \<Rightarrow> word_set txt ws = {} | None \<Rightarrow> key_set d = {})
         | _ \<Rightarrow> True))
   \<and> (curse_words e = {} \<longrightarrow>
        detect_inappropriate_words e message = [] \<and> is_message_clean e message)"
proof -
  have a: "curse_words (init txt src lvl) = {}"
    if h: "snd (load_curse_words txt (fresh lvl) src) = Inl err"
    using load_failure_words [OF h] by (auto simp: init_def fresh_def)
  have b: "detect_inappropriate_words e message = [] \<and> is_message_clean e message"
    if h: "curse_words e = {}"
    using detect_empty_list [OF h] by (simp add: is_message_clean_def)
  from a b show ?thesis using load_fails_iff [of "txt" "fresh lvl" src] by blast
qed

theorem failed_load_empty_witness:
  "snd (load_curse_words (\<lambda>v. []) (fresh MODERATE) (Parsed (JDict [(''words'', JList [])])))
     = Inl Exception
   \<and> curse_words (init (\<lambda>v. []) (Parsed (JDict [(''words'', JList [])])) MODERATE) = {}
   \<and> is_message_clean (init (\<lambda>v. []) (Parsed (JDict [(''words'', JList [])])) MODERATE)
        (Some ''blyat'')"
proof -
  have f: "snd (load_curse_words (\<lambda>v. []) (fresh MODERATE) (Parsed (JDict [(''words'', JList [])])))
     = Inl Exception"
    by (simp add: common_keys_def word_set_def check_loaded_def fresh_def)
  from failed_load_empty [of "\<lambda>v. []" MODERATE "Parsed (JDict [(''words'', JList [])])" Exception
      "init (\<lambda>v. []) (Parsed (JDict [(''words'', JList [])])) MODERATE" "Some ''blyat''"] f
  show ?thesis by blast
qed

text \<open>
  C4. For a valid message none of whose tokens has its normalized form or its
  substituted form in the block list, \<open>filter_message\<close> returns the message unchanged
  and \<open>is_message_clean\<close> is true, at every level and for either value of
  \<open>preserve_length\<close>.
\<close>

theorem clean_message_unchanged:
  assumes "valid_message e m"
    and "\<forall>w \<in> set (re_findall_words m).
           normalize_word w \<notin> curse_words e \<and> variation_form w \<notin> curse_words e"
  shows "snd (filter_message e (Some m) pl) = Inr m \<and> is_message_clean e (Some m)"
proof -
  from assms(2) have clean: "\<forall>w \<in> set (re_findall_words m). \<not> should_filter_word e w"
    by (auto simp: should_filter_word_def detect_variations_def)
  then have "censor e pl m = m" by (rule censor_clean)
  with assms(1) clean show ?thesis
    by (simp add: filter_message_valid detect_clean_iff)
qed

theorem clean_message_unchanged_witness:
  "valid_message example_engine ''Salom dunyo!''
   \<and> list_all (\<lambda>w. normalize_word w \<notin> curse_words example_engine
                     \<and> variation_form w \<notin> curse_words example_engine)
         (re_findall_words ''Salom dunyo!'')
   \<and> snd (filter_message example_engine (Some ''Salom dunyo!'') True) = Inr ''Salom dunyo!''
   \<and> is_message_clean example_engine (Some ''Salom dunyo!'')"
proof -
  have v: "valid_message example_engine ''Salom dunyo!''" by code_simp
  have c: "list_all (\<lambda>w. normalize_word w \<notin> curse_words example_engine
                     \<and> variation_form w \<notin> curse_words example_engine)
         (re_findall_words ''Salom dunyo!'')"
    by code_simp
  from c have c': "\<forall>w \<in> set (re_findall_words ''Salom dunyo!'').
         normalize_word w \<notin> curse_words example_engine
         \<and> variation_form w \<notin> curse_words example_engine"
    by (simp only: list_all_iff)
  from clean_message_unchanged [OF v c', of True] v c show ?thesis by blast
qed

text \<open>
  C5. A token judged offending at level LENIENT is judged offending at MODERATE and at
  STRICT, the block list and the other settings being the same; so the tokens detected in
  a message at LENIENT are among those detected at MODERATE and among those detected at
  STRICT.
\<close>

theorem lenient_subset:
  "(should_filter_word (e\<lparr>filter_level := LENIENT\<rparr>) w \<longrightarrow>
      should_filter_word (e\<lparr>filter_level := MODERATE\<rparr>) w
      \<and> should_filter_word (e\<lparr>filter_level := STRICT\<rparr>) w)
   \<and> set (detect_inappropriate_words (e\<lparr>filter_level := LENIENT\<rparr>) message)
        \<subseteq> set (detect_inappropriate_words (e\<lparr>filter_level := MODERATE\<rparr>) message)
   \<and> set (detect_inappropriate_words (e\<lparr>filter_level := LENIENT\<rparr>) message)
        \<subseteq> set (detect_inappropriate_words (e\<lparr>filter_level := STRICT\<rparr>) message)"
  by (auto simp: should_filter_word_def detect_inappropriate_words_def
      split: option.splits if_splits)

theorem lenient_subset_witness:
  "should_filter_word (example_engine\<lparr>filter_level := LENIENT\<rparr>) ''suka''
   \<and> should_filter_word (example_engine\<lparr>filter_level := MODERATE\<rparr>) ''suka''
   \<and> should_filter_word (example_engine\<lparr>filter_level := STRICT\<rparr>) ''suka''"
proof -
  have h: "should_filter_word (example_engine\<lparr>filter_level := LENIENT\<rparr>) ''suka''"
    by code_simp
  from lenient_subset [of example_engine "''suka''" None] h show ?thesis by blast
qed

text \<open>
  C10. When \<open>filter_message\<close> raises, the engine is as it was before the call: block
  list, settings and both counters. It raises exactly when the message is absent, empty,
  longer than \<open>max_message_length\<close> or shorter than \<open>min_message_length\<close>.
\<close>

theorem filter_message_error_keeps_state:
  "(snd (filter_message e message pl) = Inl err \<longrightarrow> fst (filter_message e message pl) = e)
   \<and> ((\<exists>err. snd (filter_message e message pl) = Inl err) \<longleftrightarrow>
        (case message of None \<Rightarrow> True
         | Some m \<Rightarrow> m = [] \<or> int (length m) > max_message_length e
                       \<or> int (length m) < min_message_length e))"
  by (auto simp: filter_message_def Let_def split_def split: option.splits)

theorem filter_message_error_keeps_state_witness:
  "snd (filter_message example_engine (Some []) True) = Inl ValueError
   \<and> fst (filter_message example_engine (Some []) True) = example_engine"
  using filter_message_error_keeps_state [of example_engine "Some []" True ValueError]
  by (simp add: filter_message_def)

text \<open>
  C2. For a block list with \<open>damn\<close>: the token \<open>D4mn\<close> of the message
  \<open>D4mn th1s 1s b4d\<close> has the substituted form \<open>damn\<close> and is judged offending at level
  MODERATE; at LENIENT it is not, when its normalized form \<open>dmn\<close> is not in the list. The
  substituted form of any word is the normalized form of the lowercased word with every
  character that the table lists replaced by its letter. When the list holds \<open>dmn\<close> as
  well, the direct match on the normalized form makes \<open>D4mn\<close> offending at LENIENT too.
\<close>

theorem damn_variation:
  assumes "''damn'' \<in> curse_words e"
  shows "variation_form ''D4mn'' = ''damn''
    \<and> should_filter_word (e\<lparr>filter_level := MODERATE\<rparr>) ''D4mn''
    \<and> ''D4mn'' \<in> set (detect_inappropriate_words (e\<lparr>filter_level := MODERATE\<rparr>)
                        (Some ''D4mn th1s 1s b4d''))
    \<and> (''dmn'' \<notin> curse_words e \<longrightarrow>
         \<not> should_filter_word (e\<lparr>filter_level := LENIENT\<rparr>) ''D4mn''
         \<and> ''D4mn'' \<notin> set (detect_inappropriate_words (e\<lparr>filter_level := LENIENT\<rparr>)
                            (Some ''D4mn th1s 1s b4d'')))
    \<and> (\<forall>w. variation_form w =
           normalize_word
             (map (\<lambda>c. case map_of substitutions c of Some letter \<Rightarrow> letter | None \<Rightarrow> c)
                  (py_lower w)))"
proof -
  have m: "should_filter_word (e\<lparr>filter_level := MODERATE\<rparr>) ''D4mn''"
    using assms by (simp add: should_filter_word_def detect_variations_def d4mn_variation)
  have l: "\<not> should_filter_word (e\<lparr>filter_level := LENIENT\<rparr>) ''D4mn''"
    if "''dmn'' \<notin> curse_words e"
    using that by (simp add: should_filter_word_def d4mn_normalized)
  have ds: "\<And>e. detect_inappropriate_words e (Some ''D4mn th1s 1s b4d'')
      = filter (should_filter_word e) [''D4mn'', ''th1s'', ''1s'', ''b4d'']"
    using d4mn_words by (simp add: detect_inappropriate_words_def del: re_findall_words.simps)
  have dm: "''D4mn'' \<in> set (detect_inappropriate_words (e\<lparr>filter_level := MODERATE\<rparr>)
                        (Some ''D4mn th1s 1s b4d''))"
    using m by (simp add: ds)
  have dl: "''D4mn'' \<notin> set (detect_inappropriate_words (e\<lparr>filter_level := LENIENT\<rparr>)
                            (Some ''D4mn th1s 1s b4d''))"
    if "''dmn'' \<notin> curse_words e"
    using l [OF that] by (simp add: ds)
  from m l dm dl show ?thesis using d4mn_variation variation_form_map by blast
qed

theorem damn_variation_witness:
  "''damn'' \<in> curse_words example_engine \<and> ''dmn'' \<notin> curse_words example_engine
   \<and> should_filter_word (example_engine\<lparr>filter_level := MODERATE\<rparr>) ''D4mn''
   \<and> \<not> should_filter_word (example_engine\<lparr>filter_level := LENIENT\<rparr>) ''D4mn''"
proof -
  have a: "''damn'' \<in> curse_words example_engine" by code_simp
  have b: "''dmn'' \<notin> curse_words example_engine" by code_simp
  from damn_variation [OF a] a b show ?thesis by blast
qed

theorem damn_variation_counterexample:
  "''damn'' \<in> curse_words dmn_engine
   \<and> filter_level dmn_engine = LENIENT
   \<and> normalize_word ''D4mn'' = ''dmn''
   \<and> should_filter_word dmn_engine ''D4mn''
   \<and> detect_inappropriate_words dmn_engine (Some ''D4mn th1s 1s b4d'') = [''D4mn'']"
  by code_simp

text \<open>
  C9. From reset statistics, after \<open>N\<close> calls of \<open>filter_message\<close> that all return,
  \<open>total_messages_processed\<close> is \<open>N\<close> and \<open>total_words_filtered\<close> is the number of tokens
  judged offending in the \<open>N\<close> messages together. One call of \<open>get_filter_report\<close> on a
  valid message returns a report, adds one to \<open>total_messages_processed\<close> and adds the
  number of detected words to \<open>total_words_filtered\<close>.
\<close>

theorem counters_consistent:
  "(filter_calls (reset_statistics e) calls = Some e' \<longrightarrow>
      total_messages_processed e' = int (length calls)
      \<and> total_words_filtered e' =
          (\<Sum>c\<leftarrow>calls. int (length (detect_inappropriate_words e (fst c)))))
   \<and> (valid_message e m \<longrightarrow>
        (\<exists>r. snd (get_filter_report e (Some m)) = Inr r
              \<and> filtered_words_count r = int (length (detect_inappropriate_words e (Some m))))
        \<and> total_messages_processed (fst (get_filter_report e (Some m)))
            = total_messages_processed e + 1
        \<and> total_words_filtered (fst (get_filter_report e (Some m)))
            = total_words_filtered e + int (length (detect_inappropriate_words e (Some m))))"
proof -
  have a: "total_messages_processed e' = int (length calls)
      \<and> total_words_filtered e' =
          (\<Sum>c\<leftarrow>calls. int (length (detect_inappropriate_words e (fst c))))"
    if h: "filter_calls (reset_statistics e) calls = Some e'"
  proof -
    have same: "\<And>x. detect_inappropriate_words (reset_statistics e) x = detect_inappropriate_words e x"
      by (rule detect_cong) (simp_all add: reset_statistics_def)
    from filter_calls_counts [OF h] show ?thesis
      by (simp add: same) (simp add: reset_statistics_def)
  qed
  have b: "(\<exists>r. snd (get_filter_report e (Some m)) = Inr r
              \<and> filtered_words_count r = int (length (detect_inappropriate_words e (Some m))))
        \<and> total_messages_processed (fst (get_filter_report e (Some m)))
            = total_messages_processed e + 1
        \<and> total_words_filtered (fst (get_filter_report e (Some m)))
            = total_words_filtered e + int (length (detect_inappropriate_words e (Some m)))"
    if h: "valid_message e m"
    using get_filter_report_valid [OF h] by auto
  from a b show ?thesis by blast
qed

theorem counters_consistent_witness:
  "map_option total_messages_processed
     (filter_calls (reset_statistics example_engine)
        [(Some ''Salom dunyo!'', True), (Some ''Sen blyat suka sen!'', True)]) = Some 2
   \<and> map_option total_words_filtered
     (filter_calls (reset_statistics example_engine)
        [(Some ''Salom dunyo!'', True), (Some ''Sen blyat suka sen!'', True)]) = Some 2
   \<and> valid_message example_engine ''blyat''
   \<and> total_messages_processed (fst (get_filter_report example_engine (Some ''blyat'')))
        = total_messages_processed example_engine + 1
   \<and> total_words_filtered (fst (get_filter_report example_engine (Some ''blyat'')))
        = total_words_filtered example_engine + 1"
proof -
  let ?calls = "[(Some ''Salom dunyo!'', True), (Some ''Sen blyat suka sen!'', True)]"
  have "filter_calls (reset_statistics example_engine) ?calls \<noteq> None" by code_simp
  then obtain e' where e': "filter_calls (reset_statistics example_engine) ?calls = Some e'"
    by blast
  have k: "(\<Sum>c\<leftarrow>?calls. int (length (detect_inappropriate_words example_engine (fst c)))) = 2"
    by code_simp
  have v: "valid_message example_engine ''blyat''" by code_simp
  have d: "int (length (detect_inappropriate_words example_engine (Some ''blyat''))) = 1"
    by code_simp
  note T = counters_consistent [of example_engine ?calls e' "''blyat''"]
  from T e' have "total_messages_processed e' = int (length ?calls)" by blast
  then have p: "total_messages_processed e' = 2" by simp
  from T e' k have w: "total_words_filtered e' = 2" by (simp only:)
  from T v d have r1: "total_messages_processed (fst (get_filter_report example_engine (Some ''blyat'')))
        = total_messages_processed example_engine + 1"
    and r2: "total_words_filtered (fst (get_filter_report example_engine (Some ''blyat'')))
        = total_words_filtered example_engine + 1"
    by (simp_all only:)
  have 1: "map_option total_messages_processed
     (filter_calls (reset_statistics example_engine) ?calls) = Some 2"
    by (simp only: e' option.map p)
  have 2: "map_option total_words_filtered
     (filter_calls (reset_statistics example_engine) ?calls) = Some 2"
    by (simp only: e' option.map w)
  from 1 2 v r1 r2 show ?thesis by (simp only:)
qed

text \<open>
  C6. For an engine whose replacement is one character and a valid message,
  \<open>filter_message\<close> with \<open>preserve_length\<close> returns a text on which a second call, with
  the same settings, returns the same text. When the replacement character is not a word
  character (as the default \<open>*\<close>), no token of the filtered text is judged offending.
  With a letter as replacement character the filtered text can still hold offending
  tokens: the block list \<open>{aaa}\<close> and the replacement \<open>a\<close> turn \<open>aaa\<close> into \<open>aaa\<close>.
\<close>

theorem filter_twice:
  assumes len1: "length (replacement_char e) = 1" and v: "valid_message e m"
  shows "\<exists>e1 t. filter_message e (Some m) True = (e1, Inr t)
    \<and> snd (filter_message e1 (Some t) True) = Inr t
    \<and> (\<not> is_word_char (hd (replacement_char e)) \<longrightarrow>
         detect_inappropriate_words e1 (Some t) = [])"
proof -
  let ?e1 = "e\<lparr>total_messages_processed := total_messages_processed e + 1,
        total_words_filtered :=
          total_words_filtered e + int (length (detect_inappropriate_words e (Some m)))\<rparr>"
  let ?t = "censor e True m"
  have first: "filter_message e (Some m) True = (?e1, Inr ?t)"
    by (rule filter_message_valid [OF v])
  have len: "length ?t = length m" by (rule length_censor [OF len1])
  from v have "length m \<noteq> 0" by (simp add: valid_message_def)
  with len have ne: "?t \<noteq> []" by auto
  have v1: "valid_message ?e1 ?t"
    using v ne by (simp add: valid_message_def len)
  have c1: "censor ?e1 True ?t = censor e True ?t"
    by (rule censor_cong) simp_all
  have second: "snd (filter_message ?e1 (Some ?t) True) = Inr ?t"
    by (simp add: filter_message_valid [OF v1] c1 censor_idem [OF len1])
  have none: "detect_inappropriate_words ?e1 (Some ?t) = []"
    if nw: "\<not> is_word_char (hd (replacement_char e))"
  proof -
    from len1 obtain r where r: "replacement_char e = [r]"
      by (cases "replacement_char e") auto
    with nw have sep: "\<forall>c \<in> set (replacement_char e). \<not> is_word_char c" by simp
    have "detect_inappropriate_words ?e1 (Some ?t) = detect_inappropriate_words e (Some ?t)"
      by (rule detect_cong) simp_all
    also have "\<dots> = []"
      by (simp add: detect_inappropriate_words_def words_after_censor [OF sep])
    finally show ?thesis .
  qed
  from first second none show ?thesis by blast
qed

theorem filter_twice_witness:
  "length (replacement_char example_engine) = 1
   \<and> valid_message example_engine ''Sen blyat suka sen!''
   \<and> \<not> is_word_char (hd (replacement_char example_engine))
   \<and> snd (filter_message example_engine (Some ''Sen blyat suka sen!'') True)
       = Inr ''Sen ***** **** sen!''
   \<and> snd (filter_message (fst (filter_message example_engine (Some ''Sen blyat suka sen!'') True))
            (Some ''Sen ***** **** sen!'') True)
       = Inr ''Sen ***** **** sen!''
   \<and> detect_inappropriate_words
        (fst (filter_message example_engine (Some ''Sen blyat suka sen!'') True))
        (Some ''Sen ***** **** sen!'') = []"
proof -
  have l: "length (replacement_char example_engine) = 1" by code_simp
  have v: "valid_message example_engine ''Sen blyat suka sen!''" by code_simp
  have n: "\<not> is_word_char (hd (replacement_char example_engine))" by code_simp
  have f: "snd (filter_message example_engine (Some ''Sen blyat suka sen!'') True)
       = Inr ''Sen ***** **** sen!''"
    by code_simp
  from filter_twice [OF l v] obtain e1 t where
    a: "filter_message example_engine (Some ''Sen blyat suka sen!'') True = (e1, Inr t)"
    and b: "snd (filter_message e1 (Some t) True) = Inr t"
    and c: "\<not> is_word_char (hd (replacement_char example_engine)) \<longrightarrow>
         detect_inappropriate_words e1 (Some t) = []"
    by blast
  from a f have t: "t = ''Sen ***** **** sen!''" by simp
  from a have e1: "fst (filter_message example_engine (Some ''Sen blyat suka sen!'') True) = e1"
    by simp
  from l v n f b c show ?thesis unfolding e1 t by blast
qed

theorem filter_twice_counterexample:
  "length (replacement_char letter_engine) = 1
   \<and> valid_message letter_engine ''aaa''
   \<and> snd (filter_message letter_engine (Some ''aaa'') True) = Inr ''aaa''
   \<and> detect_inappropriate_words (fst (filter_message letter_engine (Some ''aaa'') True))
        (Some ''aaa'') = [''aaa'']"
  by code_simp

text \<open>
  C7. Every word in the block list of an engine that a program can hold is lowercased and
  trimmed; non-letters stay in it. This holds after construction and after every
  operation. \<open>add_curse_word\<close> raises on an absent or empty word and otherwise stores the
  lowercased, trimmed word; \<open>remove_curse_word\<close> only takes words away. The word
  \<open>yomon_soz\<close>, once added, is stored with its underscore.
\<close>

theorem stored_words_lowered_trimmed:
  "(reachable e \<longrightarrow> (\<forall>w \<in> curse_words e. lowered_trimmed w))
   \<and> add_curse_word e None = (e, Inl ValueError)
   \<and> add_curse_word e (Some []) = (e, Inl ValueError)
   \<and> (w \<noteq> [] \<longrightarrow>
        curse_words (fst (add_curse_word e (Some w)))
          = insert (py_strip (py_lower w)) (curse_words e))
   \<and> curse_words (fst (remove_curse_word e word)) \<subseteq> curse_words e"
  using reachable_lowered_trimmed [of e]
  by (auto simp: add_curse_word_def remove_curse_word_def Let_def split: option.splits)

theorem stored_words_lowered_trimmed_witness:
  "reachable underscore_engine \<and> ''yomon_soz'' \<in> curse_words underscore_engine
   \<and> lowered_trimmed ''yomon_soz''"
proof -
  have r: "reachable underscore_engine"
    unfolding underscore_engine_def by (rule r_add, rule r_init)
  have m: "''yomon_soz'' \<in> curse_words underscore_engine" by code_simp
  from stored_words_lowered_trimmed [of underscore_engine "''x''" None] r m
  show ?thesis by blast
qed

theorem stored_words_counterexample:
  "reachable underscore_engine \<and> ''yomon_soz'' \<in> curse_words underscore_engine
   \<and> \<not> normalized_entry ''yomon_soz''"
proof -
  have r: "reachable underscore_engine"
    unfolding underscore_engine_def by (rule r_add, rule r_init)
  have m: "''yomon_soz'' \<in> curse_words underscore_engine" by code_simp
  have n: "\<not> normalized_entry ''yomon_soz''" by code_simp
  from r m n show ?thesis by blast
qed

text \<open>
  C8. The normalizer is \<open>normalize_word\<close>; \<open>normalize_word_reference\<close> above shows that it
  equals stripping the non-letters and then lowercasing. A block list can hold the empty
  word: \<open>add_curse_word\<close> tests for emptiness before it trims, so a blank word is stored
  as the empty string. The token \<open>123\<close>, whose normalized form is empty, is then judged
  offending.
\<close>

theorem empty_entry_flags_digits:
  "reachable blank_engine \<and> curse_words blank_engine = {''''}
   \<and> normalize_word ''123'' = []
   \<and> should_filter_word blank_engine ''123''
   \<and> snd (filter_message blank_engine (Some ''call 123'') True) = Inr ''call ***''"
proof -
  have r: "reachable blank_engine"
    unfolding blank_engine_def by (rule r_add, rule r_init)
  have a: "curse_words blank_engine = {''''}" by code_simp
  have b: "normalize_word ''123'' = []" by code_simp
  have c: "should_filter_word blank_engine ''123''" by code_simp
  have d: "snd (filter_message blank_engine (Some ''call 123'') True) = Inr ''call ***''"
    by code_simp
  from r a b c d show ?thesis by blast
qed

end
